theory Spec2Isabelle
  imports Main "HOL-Library.Word"
begin

section \<open>Data model of the distributor\<close>

text \<open>
  The embedding follows \<^verbatim>\<open>distributor/cmd/distributor/main.go\<close>.
  Go's \<^verbatim>\<open>int\<close> and \<^verbatim>\<open>uint\<close> are modelled by \<^typ>\<open>nat\<close>: every integer of the
  modelled code is a length, an index below a length or a product bounded by a length, so
  no 64-bit operation wraps.  Run-time panics are values of type \<open>panic\<close>.
\<close>

type_synonym byte = "8 word"

datatype panic = DivideByZero | SliceBounds | IndexOutOfRange

text \<open>
  A Go slice \<^verbatim>\<open>[]byte\<close>: \<open>arr\<close> is the backing array from the first element of the
  slice up to its capacity, \<open>len\<close> the length.  The elements of the slice are the first
  \<open>len\<close> bytes of \<open>arr\<close>; the capacity is the length of \<open>arr\<close>.
\<close>

record slice =
  arr :: "byte list"
  len :: nat

definition cap :: "slice \<Rightarrow> nat" where
  "cap s = length (arr s)"

definition bytes :: "slice \<Rightarrow> byte list" where
  "bytes s = take (len s) (arr s)"

definition wf_slice :: "slice \<Rightarrow> bool" where
  "wf_slice s = (len s \<le> cap s)"

definition nil_slice :: slice where
  "nil_slice = \<lparr>arr = [], len = 0\<rparr>"

text \<open>
  The slice expression \<^verbatim>\<open>s[lo:hi]\<close> on a slice: the indices are in range when
  \<open>lo \<le> hi \<le> cap s\<close> (for a slice the upper bound is the capacity, not the length);
  the result shares the backing array from \<open>lo\<close> on.  \<^verbatim>\<open>s[lo:]\<close> is
  \<^verbatim>\<open>s[lo:len(s)]\<close>.
\<close>

definition slice_range :: "slice \<Rightarrow> nat \<Rightarrow> nat \<Rightarrow> panic + slice" where
  "slice_range s lo hi =
     (if lo \<le> hi \<and> hi \<le> cap s then Inr \<lparr>arr = drop lo (arr s), len = hi - lo\<rparr>
      else Inl SliceBounds)"

definition slice_from :: "slice \<Rightarrow> nat \<Rightarrow> panic + slice" where
  "slice_from s lo = slice_range s lo (len s)"

text \<open>The slice expression \<^verbatim>\<open>s[lo:hi]\<close> on a string: the upper bound is the length.\<close>

definition string_range :: "byte list \<Rightarrow> nat \<Rightarrow> nat \<Rightarrow> panic + byte list" where
  "string_range s lo hi =
     (if lo \<le> hi \<and> hi \<le> length s then Inr (take (hi - lo) (drop lo s))
      else Inl SliceBounds)"

record fileChunkInfo =
  ResourceID :: string
  FileName :: string
  Order :: nat
  URL :: string

record chunk =
  order :: nat
  data :: slice

datatype error = NotFound string

record mockStorageServer =
  addr :: string
  storage :: "string \<rightharpoonup> chunk"

text \<open>
  The package-level variables: the registry \<^verbatim>\<open>fileChunksDB\<close> and the backends
  \<^verbatim>\<open>servers\<close>.
\<close>

record state =
  fileChunksDB :: "string \<rightharpoonup> fileChunkInfo list"
  servers :: "mockStorageServer list"

section \<open>The in-memory backend\<close>

text \<open>
  \<^verbatim>\<open>mockStorageServer\<close> is the only type with both methods of \<^verbatim>\<open>StorageClient\<close>, and
  the one that \<^verbatim>\<open>newStorageClient\<close> returns (\<^verbatim>\<open>storageServer\<close> has no
  \<^verbatim>\<open>GetChunk\<close>): the backends are in-memory servers.  The error
  \<^verbatim>\<open>resource "name" not found\<close> is \<open>NotFound name\<close>.
\<close>

definition newStorageClient :: "string \<Rightarrow> mockStorageServer" where
  "newStorageClient a = \<lparr>addr = a, storage = Map.empty\<rparr>"

definition GetChunk :: "mockStorageServer \<Rightarrow> string \<Rightarrow> error + chunk" where
  "GetChunk s name =
     (case storage s name of
        None \<Rightarrow> Inl (NotFound name)
      | Some ch \<Rightarrow> Inr ch)"

text \<open>\<^verbatim>\<open>SaveChunk\<close> returns the error (always \<^verbatim>\<open>nil\<close>) and the updated server.\<close>

definition SaveChunk ::
  "mockStorageServer \<Rightarrow> string \<Rightarrow> nat \<Rightarrow> slice \<Rightarrow> error option \<times> mockStorageServer" where
  "SaveChunk s name ord d =
     (None, s\<lparr>storage := (storage s)(name \<mapsto> \<lparr>order = ord, data = d\<rparr>)\<rparr>)"

section \<open>The splitter\<close>

text \<open>
  The loop of \<^verbatim>\<open>splitFile\<close>, from counter \<open>i\<close> on; \<open>splitted\<close> is the result
  array filled so far.
\<close>

function splitLoop ::
  "slice \<Rightarrow> nat \<Rightarrow> nat \<Rightarrow> nat \<Rightarrow> slice list \<Rightarrow> panic + slice list" where
  "splitLoop file parts partSize i splitted =
     (if i < parts then
        (case (if i = parts - 1 then slice_from file (i * partSize)
               else slice_range file (i * partSize) ((i + 1) * partSize)) of
           Inl p \<Rightarrow> Inl p
         | Inr s \<Rightarrow> splitLoop file parts partSize (i + 1) (splitted[i := s]))
      else Inr splitted)"
  by pat_completeness auto
termination
  by (relation "measure (\<lambda>(file, parts, partSize, i, splitted). parts - i)") auto

declare splitLoop.simps [simp del]

text \<open>
  \<^verbatim>\<open>splitFile\<close>; the first argument is \<^verbatim>\<open>len(servers)\<close>.  The division panics when
  there is no backend.
\<close>

definition splitFile :: "nat \<Rightarrow> slice \<Rightarrow> panic + slice list" where
  "splitFile parts file =
     (if parts = 0 then Inl DivideByZero
      else splitLoop file parts (len file div parts) 0 (replicate parts nil_slice))"

section \<open>Collaborators outside the repository\<close>

text \<open>
  The uploaded form file (\<^verbatim>\<open>multipart.File\<close>) is a reader with a position: every read
  continues where the previous one stopped.  \<^verbatim>\<open>r.FormFile\<close> returns it at position 0.
\<close>

record reader =
  content :: "byte list"
  pos :: nat

definition read_to_EOF :: "reader \<Rightarrow> byte list \<times> reader" where
  "read_to_EOF r = (drop (pos r) (content r), r\<lparr>pos := max (pos r) (length (content r))\<rparr>)"

text \<open>
  \<^verbatim>\<open>io.Copy(h, file)\<close>: reads \<open>file\<close> until EOF and writes what it read to the hash;
  the hash is modelled by the bytes written to it so far.
\<close>

definition io_Copy :: "byte list \<Rightarrow> reader \<Rightarrow> byte list \<times> reader" where
  "io_Copy h r = (let (bs, r') = read_to_EOF r in (h @ bs, r'))"

text \<open>
  \<^verbatim>\<open>io.ReadAll(file)\<close>: reads \<open>file\<close> from its current position until EOF into a fresh
  slice.  \<open>spare\<close> is the capacity the runtime leaves beyond the bytes read
  (\<^verbatim>\<open>io.ReadAll\<close> starts from \<^verbatim>\<open>make([]byte, 0, 512)\<close> and grows with \<^verbatim>\<open>append\<close>);
  fresh memory is zeroed.
\<close>

definition io_ReadAll :: "nat \<Rightarrow> reader \<Rightarrow> slice \<times> reader" where
  "io_ReadAll spare r =
     (let (bs, r') = read_to_EOF r
      in (\<lparr>arr = bs @ replicate spare 0, len = length bs\<rparr>, r'))"

text \<open>\<^verbatim>\<open>fmt.Sprintf("%x", b)\<close> on a byte slice: two lower-case hexadecimal digits per byte.\<close>

definition hex_digit :: "nat \<Rightarrow> char" where
  "hex_digit n = ''0123456789abcdef'' ! n"

definition hex_byte :: "byte \<Rightarrow> string" where
  "hex_byte b = [hex_digit (unat b div 16), hex_digit (unat b mod 16)]"

definition hex :: "byte list \<Rightarrow> string" where
  "hex bs = concat (map hex_byte bs)"

text \<open>
  What the handler takes from outside the repository: the SHA-256 digest function
  (\<^verbatim>\<open>crypto/sha256\<close>), the identifier that \<^verbatim>\<open>uuid.New()\<close> returns, the spare capacity
  that \<^verbatim>\<open>io.ReadAll\<close> leaves, and the scheduler: the order in which the goroutines of
  one upload take their steps.
\<close>

record env =
  sha256 :: "byte list \<Rightarrow> byte list"
  uuid :: string
  readAllSpare :: nat
  schedule :: "nat list"

section \<open>The handlers\<close>

record uploadResponse =
  Resource :: string
  Checksum :: string

text \<open>
  What a handler writes: \<open>Error msg code\<close> is \<^verbatim>\<open>http.Error(w, msg, code)\<close>,
  \<open>Created\<close> the 201 reply of the upload with its JSON payload, \<open>File\<close> the 200 reply
  of the download with the file name of its \<^verbatim>\<open>Content-Disposition\<close> header and its body.
\<close>

datatype response =
  Error string nat
| Created uploadResponse
| File string "byte list"

subsection \<open>Upload\<close>

text \<open>
  \<^verbatim>\<open>uploadFn\<close> has two steps that other goroutines can observe: the append of the
  record to the registry, atomic under \<^verbatim>\<open>dbMutex\<close>, and then the call of
  \<^verbatim>\<open>SaveChunk\<close> on backend \<open>id'\<close> (the source's \<^verbatim>\<open>id\<close>).  A missing registry
  key reads as the nil slice.
\<close>

definition uploadFn_append :: "string \<Rightarrow> string \<Rightarrow> nat \<Rightarrow> state \<Rightarrow> state" where
  "uploadFn_append resourceID filename id' s =
     (let chunks = (case fileChunksDB s resourceID of None \<Rightarrow> [] | Some c \<Rightarrow> c)
      in s\<lparr>fileChunksDB := (fileChunksDB s)(resourceID \<mapsto>
             chunks @ [\<lparr>ResourceID = resourceID, FileName = filename, Order = id',
                        URL = ''TBD''\<rparr>])\<rparr>)"

definition uploadFn_save :: "string \<Rightarrow> nat \<Rightarrow> slice \<Rightarrow> state \<Rightarrow> error option \<times> state" where
  "uploadFn_save resourceID id' d s =
     (let (e, srv) = SaveChunk (servers s ! id') resourceID id' d
      in (e, s\<lparr>servers := (servers s)[id' := srv]\<rparr>))"

text \<open>
  Where goroutine \<open>i\<close> of an upload stands: not started, after its append, or returned
  with the error of \<^verbatim>\<open>SaveChunk\<close>.
\<close>

datatype pc = Ready | Appended | Finished "error option"

fun is_Finished :: "pc \<Rightarrow> bool" where
  "is_Finished (Finished e) = True"
| "is_Finished p = False"

fun failed :: "pc \<Rightarrow> bool" where
  "failed (Finished (Some e)) = True"
| "failed p = False"

text \<open>
  One step of goroutine \<open>i\<close>.  There is one goroutine per part and one part per backend,
  so \<^verbatim>\<open>servers[id]\<close> is in range; an index that names no goroutine, or one that has
  returned, changes nothing.  The loop variable \<open>i\<close> is per iteration (Go 1.22).
\<close>

fun task_step ::
  "string \<Rightarrow> string \<Rightarrow> slice list \<Rightarrow> nat \<Rightarrow> state \<times> pc list \<Rightarrow> state \<times> pc list" where
  "task_step resourceID filename parts i (s, pcs) =
     (if i < length parts \<and> i < length (servers s) then
        (case pcs ! i of
           Ready \<Rightarrow> (uploadFn_append resourceID filename i s, pcs[i := Appended])
         | Appended \<Rightarrow>
             (let (e, s') = uploadFn_save resourceID i (parts ! i) s
              in (s', pcs[i := Finished e]))
         | Finished e \<Rightarrow> (s, pcs))
      else (s, pcs))"

definition run_tasks ::
  "string \<Rightarrow> string \<Rightarrow> slice list \<Rightarrow> nat list \<Rightarrow> state \<times> pc list \<Rightarrow> state \<times> pc list" where
  "run_tasks resourceID filename parts sched u =
     fold (task_step resourceID filename parts) sched u"

text \<open>
  \<^verbatim>\<open>uploadHandler\<close>.  The request is its method and the form file (name and content),
  if there is one.  The result is \<open>None\<close> when the schedule ends before every goroutine has
  returned: \<^verbatim>\<open>g.Wait()\<close> has not returned then.  The in-memory reader does not fail,
  so the two replies for a failed read are not modelled.
\<close>

definition uploadHandler ::
  "env \<Rightarrow> string \<Rightarrow> (string \<times> byte list) option \<Rightarrow> state \<Rightarrow>
     ((panic + response) \<times> state) option" where
  "uploadHandler e method form s =
     (if method \<noteq> ''POST'' then Some (Inr (Error ''Only POST is supported'' 405), s)
      else case form of
        None \<Rightarrow> Some (Inr (Error ''Failed to get the uploaded file'' 400), s)
      | Some (fhFilename, fcontent) \<Rightarrow>
          (let file0 = \<lparr>content = fcontent, pos = 0\<rparr>;
               (h, file1) = io_Copy [] file0;
               checksum = hex (sha256 e h);
               (fileBytes, file2) = io_ReadAll (readAllSpare e) file1
           in case splitFile (length (servers s)) fileBytes of
                Inl p \<Rightarrow> Some (Inl p, s)
              | Inr parts \<Rightarrow>
                  (let resourceID = uuid e;
                       s1 = s\<lparr>fileChunksDB := (fileChunksDB s)(resourceID \<mapsto> [])\<rparr>;
                       (s2, pcs) = run_tasks resourceID fhFilename parts (schedule e)
                                     (s1, replicate (length parts) Ready)
                   in if list_all is_Finished pcs then
                        (if list_ex failed pcs
                         then Some (Inr (Error ''Failed to upload file to storage'' 500), s2)
                         else Some (Inr (Created \<lparr>Resource = resourceID,
                                                   Checksum = checksum\<rparr>), s2))
                      else None)))"

subsection \<open>Download\<close>

text \<open>
  The loop of \<^verbatim>\<open>downloadHandler\<close> over the records of the entry; \<open>buf\<close> is the
  \<^verbatim>\<open>strings.Builder\<close>.  The loop ends in a panic, in a reply, or with the bytes
  assembled.  \<^verbatim>\<open>ch.data[:10]\<close> is evaluated for the log only.
\<close>

fun downloadLoop ::
  "mockStorageServer list \<Rightarrow> string \<Rightarrow> fileChunkInfo list \<Rightarrow> byte list \<Rightarrow>
     panic + response + byte list" where
  "downloadLoop srvs resourceID [] buf = Inr (Inr buf)"
| "downloadLoop srvs resourceID (info # rest) buf =
     (if Order info < length srvs then
        (case GetChunk (srvs ! Order info) resourceID of
           Inl err \<Rightarrow> Inr (Inl (Error ''Failed to get file chunk'' 500))
         | Inr ch \<Rightarrow>
             (case slice_range (data ch) 0 10 of
                Inl p \<Rightarrow> Inl p
              | Inr logged \<Rightarrow> downloadLoop srvs resourceID rest (buf @ bytes (data ch))))
      else Inl IndexOutOfRange)"

text \<open>
  \<^verbatim>\<open>downloadHandler\<close>; the request is its method and the \<^verbatim>\<open>resource_id\<close> query
  parameter.  \<^verbatim>\<open>content[:10]\<close> is evaluated for the log only.
\<close>

definition downloadHandler :: "string \<Rightarrow> string \<Rightarrow> state \<Rightarrow> panic + response" where
  "downloadHandler method resourceID s =
     (if method \<noteq> ''GET'' then Inr (Error ''Only GET is supported'' 405)
      else if resourceID = [] then Inr (Error ''Resource ID is required'' 400)
      else case fileChunksDB s resourceID of
        None \<Rightarrow> Inr (Error ''File not found'' 404)
      | Some [] \<Rightarrow> Inr (Error ''File not found'' 404)
      | Some (first # rest) \<Rightarrow>
          (case downloadLoop (servers s) resourceID (first # rest) [] of
             Inl p \<Rightarrow> Inl p
           | Inr (Inl reply) \<Rightarrow> Inr reply
           | Inr (Inr cont) \<Rightarrow>
               (case string_range cont 0 10 of
                  Inl p \<Rightarrow> Inl p
                | Inr logged \<Rightarrow> Inr (File (FileName first) cont))))"

subsection \<open>The configuration of \<^verbatim>\<open>main\<close>\<close>

definition addresses :: "string list" where
  "addresses =
     [''http://localhost:8081'', ''http://localhost:8082'', ''http://localhost:8083'',
      ''http://localhost:8084'', ''http://localhost:8085'', ''http://localhost:8086'']"

definition main_state :: state where
  "main_state = \<lparr>fileChunksDB = Map.empty, servers = map newStorageClient addresses\<rparr>"

section \<open>Definitions used in the statements\<close>

text \<open>
  Part \<open>i\<close> of a buffer cut into \<open>parts\<close> parts of \<open>ps\<close> bytes: what the loop of
  \<^verbatim>\<open>splitFile\<close> stores at index \<open>i\<close>.
\<close>

definition part_at :: "slice \<Rightarrow> nat \<Rightarrow> nat \<Rightarrow> nat \<Rightarrow> slice" where
  "part_at fl parts ps i =
     \<lparr>arr = drop (i * ps) (arr fl),
      len = (if i = parts - 1 then len fl - i * ps else ps)\<rparr>"

text \<open>A buffer of 601 bytes.\<close>

definition buf601 :: slice where
  "buf601 = \<lparr>arr = replicate 601 0, len = 601\<rparr>"

text \<open>
  Two invariants of the goroutines of one upload.  The registry entry of the upload holds
  one record for each goroutine that has passed its append, and no other.  A backend keeps
  what it held until its goroutine has called \<^verbatim>\<open>SaveChunk\<close>, and holds the part from
  then on.
\<close>

definition reg_inv :: "string \<Rightarrow> string \<Rightarrow> nat \<Rightarrow> state \<times> pc list \<Rightarrow> bool" where
  "reg_inv rid fn n u =
     (case u of (s, pcs) \<Rightarrow>
        length pcs = n \<and> length (servers s) = n \<and>
        (\<exists>recs. fileChunksDB s rid = Some recs \<and> distinct (map Order recs) \<and>
           set (map Order recs) = {i. i < n \<and> pcs ! i \<noteq> Ready} \<and>
           (\<forall>r\<in>set recs. FileName r = fn \<and> ResourceID r = rid)))"

definition srv_inv :: "string \<Rightarrow> slice list \<Rightarrow> state \<Rightarrow> state \<times> pc list \<Rightarrow> bool" where
  "srv_inv rid parts s1 u =
     (case u of (s, pcs) \<Rightarrow>
        (\<forall>i<length parts.
           (pcs ! i = Ready \<or> pcs ! i = Appended \<longrightarrow> servers s ! i = servers s1 ! i) \<and>
           (\<forall>e. pcs ! i = Finished e \<longrightarrow>
              e = None \<and> storage (servers s ! i) rid = Some \<lparr>order = i, data = parts ! i\<rparr>)))"

text \<open>Example inputs: a stand-in digest, two backends, a file of twelve bytes.\<close>

definition example_digest :: "byte list \<Rightarrow> byte list" where
  "example_digest bs = [of_nat (length bs), of_nat (length bs) + 1]"

definition example_env :: env where
  "example_env = \<lparr>sha256 = example_digest, uuid = ''r1'', readAllSpare = 512,
                   schedule = [1, 0, 1, 0]\<rparr>"

definition two_backends :: state where
  "two_backends = \<lparr>fileChunksDB = Map.empty,
                     servers = [newStorageClient ''b0'', newStorageClient ''b1'']\<rparr>"

definition hello :: "byte list" where
  "hello = [104, 101, 108, 108, 111, 32, 119, 111, 114, 108, 100, 33]"

text \<open>
  The chunk that the download fetches for a record: the one that backend \<open>Order\<close> holds
  under the resource identifier, if that backend exists and holds one.
\<close>

definition chunk_of :: "mockStorageServer list \<Rightarrow> string \<Rightarrow> fileChunkInfo \<Rightarrow> chunk option" where
  "chunk_of srvs resourceID info =
     (if Order info < length srvs then storage (srvs ! Order info) resourceID else None)"

text \<open>
  A backend after a sequence of \<^verbatim>\<open>SaveChunk\<close> calls, each given by its name, order
  and data.
\<close>

definition save_all ::
  "(string \<times> nat \<times> slice) list \<Rightarrow> mockStorageServer \<Rightarrow> mockStorageServer" where
  "save_all ops s = fold (\<lambda>(name, ord, d) srv. snd (SaveChunk srv name ord d)) ops s"

text \<open>
  Further example inputs.  \<open>split_of bs\<close> are the parts of a buffer holding \<open>bs\<close> with
  512 spare bytes, for two backends.  \<open>mid_upload\<close> is an upload on two backends, with
  the parts that \<^verbatim>\<open>uploadHandler\<close> computes, after the first step of goroutine 0.
  \<open>uploaded\<close> is the state that the example upload leaves.  \<open>stored_hello\<close> is the
  state that the goroutines leave when the parts are those of \<open>hello\<close>.
  \<open>chunk_sizes\<close> lists length and capacity of the chunk each backend holds.
\<close>

definition empty_entry :: state where
  "empty_entry = two_backends\<lparr>fileChunksDB := (fileChunksDB two_backends)(''r1'' \<mapsto> [])\<rparr>"

definition split_of :: "byte list \<Rightarrow> slice list" where
  "split_of bs =
     (case splitFile 2 \<lparr>arr = bs @ replicate 512 0, len = length bs\<rparr> of
        Inr ps \<Rightarrow> ps | Inl p \<Rightarrow> [])"

definition mid_upload :: "state \<times> pc list" where
  "mid_upload = run_tasks ''r1'' ''a.txt'' (split_of []) [0] (empty_entry, [Ready, Ready])"

definition stored_hello :: state where
  "stored_hello =
     fst (run_tasks ''r1'' ''a.txt'' (split_of hello) [1, 0, 1, 0] (empty_entry, [Ready, Ready]))"

definition uploaded :: state where
  "uploaded =
     (case uploadHandler example_env ''POST'' (Some (''a.txt'', hello)) two_backends of
        Some (r, s') \<Rightarrow> s' | None \<Rightarrow> two_backends)"

definition chunk_sizes :: "state \<Rightarrow> string \<Rightarrow> (nat \<times> nat) option list" where
  "chunk_sizes s resourceID =
     map (\<lambda>srv. map_option (\<lambda>ch. (len (data ch), cap (data ch))) (storage srv resourceID))
       (servers s)"

text \<open>Two slices of two bytes, the first with one spare byte.\<close>

definition data_a :: slice where
  "data_a = \<lparr>arr = [1, 2, 3], len = 2\<rparr>"

definition data_b :: slice where
  "data_b = \<lparr>arr = [4, 5], len = 2\<rparr>"

text \<open>Goroutine state \<open>p\<close> after \<open>k\<close> further steps, when \<^verbatim>\<open>SaveChunk\<close> returns no error.\<close>

fun advance :: "nat \<Rightarrow> pc \<Rightarrow> pc" where
  "advance 0 p = p"
| "advance (Suc k) Ready = advance k Appended"
| "advance (Suc k) Appended = advance k (Finished None)"
| "advance (Suc k) (Finished e) = Finished e"

section \<open>Properties of the splitter\<close>

lemma splitLoop_eq:
  "wf_slice fl \<Longrightarrow> parts * ps \<le> len fl \<Longrightarrow> length splitted = parts \<Longrightarrow> i \<le> parts \<Longrightarrow>
   splitLoop fl parts ps i splitted =
     Inr (take i splitted @ map (part_at fl parts ps) [i..<parts])"
proof (induction fl parts ps i splitted rule: splitLoop.induct)
  case (1 fl parts ps i splitted)
  show ?case
  proof (cases "i < parts")
    case False
    with "1.prems" show ?thesis by (simp add: splitLoop.simps)
  next
    case True
    have "i + 1 \<le> parts" using True by simp
    then have le: "(i + 1) * ps \<le> parts * ps" by (rule mult_le_mono1)
    have b1: "i * ps \<le> len fl" using le "1.prems"(2) by simp
    have b2: "(i + 1) * ps \<le> cap fl" using le "1.prems"(1,2) by (simp add: wf_slice_def)
    define s where "s = part_at fl parts ps i"
    have step: "(if i = parts - 1 then slice_from fl (i * ps)
               else slice_range fl (i * ps) ((i + 1) * ps)) = Inr s"
    proof (cases "i = parts - 1")
      case True
      then show ?thesis
        using b1 "1.prems"(1)
        by (simp add: slice_from_def slice_range_def part_at_def s_def wf_slice_def)
    next
      case False
      then show ?thesis
        using b2 by (simp add: slice_range_def part_at_def s_def)
    qed
    have IH: "splitLoop fl parts ps (i + 1) (splitted[i := s]) =
       Inr (take (i + 1) (splitted[i := s]) @ map (part_at fl parts ps) [i + 1..<parts])"
      using "1.IH"[OF True step] "1.prems" True by simp
    have tk: "take (i + 1) (splitted[i := s]) = take i splitted @ [s]"
      using True "1.prems"(3) by (simp add: take_Suc_conv_app_nth)
    have up: "[i..<parts] = i # [i + 1..<parts]" using True by (simp add: upt_conv_Cons)
    show ?thesis
      using True step IH tk up by (subst splitLoop.simps) (simp add: s_def)
  qed
qed

lemma splitFile_eq:
  "wf_slice fl \<Longrightarrow> 0 < parts \<Longrightarrow>
   splitFile parts fl = Inr (map (part_at fl parts (len fl div parts)) [0..<parts])"
  using splitLoop_eq[of fl parts "len fl div parts" "replicate parts nil_slice" 0]
  by (simp add: splitFile_def)

lemma concat_take_drop:
  "concat (map (\<lambda>i. take ps (drop (i * ps) xs)) [0..<n]) = take (n * ps) xs"
proof (induction n)
  case 0 show ?case by simp
next
  case (Suc n)
  have "take (Suc n * ps) xs = take (n * ps) xs @ take ps (drop (n * ps) xs)"
    using take_add[of "n * ps" ps xs] by (simp add: add.commute)
  with Suc show ?case by simp
qed


lemma bytes_part_at_inner:
  assumes "wf_slice fl" "0 < parts" "i < parts - 1"
  shows "bytes (part_at fl parts (len fl div parts) i) =
         take (len fl div parts) (drop (i * (len fl div parts)) (arr fl))"
  using assms by (simp add: bytes_def part_at_def)

lemma bytes_part_at_last:
  "i = parts - 1 \<Longrightarrow> bytes (part_at fl parts ps i) =
         take (len fl - i * ps) (drop (i * ps) (arr fl))"
  by (simp add: bytes_def part_at_def)

lemma div_mult_le_len: "parts * (len fl div parts) \<le> len fl"
  by simp

lemma length_bytes_inner:
  assumes "wf_slice fl" "0 < parts" "i < parts - 1"
  shows "length (bytes (part_at fl parts (len fl div parts) i)) = len fl div parts"
proof -
  let ?q = "len fl div parts"
  have "i + 1 \<le> parts" using assms(3) by simp
  then have "(i + 1) * ?q \<le> parts * ?q" by (rule mult_le_mono1)
  also have "\<dots> \<le> len fl" by simp
  also have "\<dots> \<le> length (arr fl)" using assms(1) by (simp add: wf_slice_def cap_def)
  finally have "(i + 1) * ?q \<le> length (arr fl)" .
  then show ?thesis
    using assms by (simp add: bytes_part_at_inner)
qed

lemma length_bytes_last:
  assumes "wf_slice fl" "i = parts - 1"
  shows "length (bytes (part_at fl parts ps i)) = len fl - i * ps"
  using assms by (simp add: bytes_part_at_last wf_slice_def cap_def)

lemma concat_parts:
  assumes "wf_slice fl" "0 < parts"
  shows "concat (map (\<lambda>i. bytes (part_at fl parts (len fl div parts) i)) [0..<parts]) = bytes fl"
proof -
  let ?q = "len fl div parts"
  obtain m where m: "parts = Suc m" using assms(2) by (cases parts) auto
  have inner: "map (\<lambda>i. bytes (part_at fl parts ?q i)) [0..<m] =
               map (\<lambda>i. take ?q (drop (i * ?q) (arr fl))) [0..<m]"
    using assms m by (intro map_cong refl) (simp add: bytes_part_at_inner)
  have "m * ?q \<le> parts * ?q" using m by simp
  also have "\<dots> \<le> len fl" by simp
  finally have le: "m * ?q \<le> len fl" .
  have lastp: "bytes (part_at fl parts ?q m) =
        take (len fl - m * ?q) (drop (m * ?q) (arr fl))"
    using m by (simp add: bytes_part_at_last)
  have "concat (map (\<lambda>i. bytes (part_at fl parts ?q i)) [0..<parts]) =
        concat (map (\<lambda>i. bytes (part_at fl parts ?q i)) [0..<m]) @ bytes (part_at fl parts ?q m)"
    unfolding m by simp
  also have "\<dots> = take (m * ?q) (arr fl) @ take (len fl - m * ?q) (drop (m * ?q) (arr fl))"
    unfolding inner lastp concat_take_drop ..
  also have "\<dots> = take (m * ?q + (len fl - m * ?q)) (arr fl)"
    by (simp only: take_add)
  also have "\<dots> = bytes fl" using le by (simp add: bytes_def)
  finally show ?thesis .
qed

text \<open>
  Claim C3.  For every backend count \<open>N \<ge> 1\<close> and every byte buffer of length \<open>L\<close>,
  \<^verbatim>\<open>splitFile\<close> returns exactly \<open>N\<close> parts whose concatenation is the buffer; each of
  the first \<open>N - 1\<close> parts has \<open>L div N\<close> bytes and the last one the remaining
  \<open>L - (N - 1) * (L div N)\<close>; with 6 backends and 601 bytes the sizes are
  100, 100, 100, 100, 100, 101.
\<close>

theorem splitFile_parts:
  assumes "1 \<le> N" and "wf_slice buf"
  shows "\<exists>ps. splitFile N buf = Inr ps \<and> length ps = N \<and>
           concat (map bytes ps) = bytes buf \<and>
           (\<forall>i<N - 1. length (bytes (ps ! i)) = len buf div N) \<and>
           length (bytes (ps ! (N - 1))) = len buf - (N - 1) * (len buf div N) \<and>
           (N = 6 \<and> len buf = 601 \<longrightarrow>
              map (\<lambda>p. length (bytes p)) ps = [100, 100, 100, 100, 100, 101])"
proof -
  let ?q = "len buf div N"
  let ?ps = "map (part_at buf N ?q) [0..<N]"
  have pos: "0 < N" using assms(1) by simp
  have eq: "splitFile N buf = Inr ?ps" using assms(2) pos by (rule splitFile_eq)
  have cc: "concat (map bytes ?ps) = bytes buf"
    using concat_parts[OF assms(2) pos] by (simp add: comp_def)
  have inner: "\<forall>i<N - 1. length (bytes (?ps ! i)) = ?q"
    using assms(2) pos by (simp add: length_bytes_inner)
  have lst: "length (bytes (?ps ! (N - 1))) = len buf - (N - 1) * ?q"
    using assms(2) pos length_bytes_last[of buf "N - 1" N ?q] by simp
  have six: "map (\<lambda>p. length (bytes p)) ?ps = [100, 100, 100, 100, 100, 101]"
    if "N = 6" "len buf = 601"
  proof -
    have up: "[0..<6] = [0, 1, 2, 3, 4, 5::nat]" by (simp add: upt_rec)
    have q: "?q = 100" using that by simp
    have "\<And>i. i < 5 \<Longrightarrow> length (bytes (part_at buf N ?q i)) = 100"
      using length_bytes_inner[OF assms(2) pos] that by simp
    moreover have "length (bytes (part_at buf N ?q 5)) = 101"
      using length_bytes_last[of buf 5 N ?q] assms(2) that by simp
    ultimately show ?thesis using that up by simp
  qed
  show ?thesis using eq cc inner lst six by simp
qed

theorem splitFile_parts_witness:
  "1 \<le> (6::nat) \<and> wf_slice buf601 \<and>
   (\<exists>ps. splitFile 6 buf601 = Inr ps \<and> length ps = 6 \<and>
           concat (map bytes ps) = bytes buf601 \<and>
           map (\<lambda>p. length (bytes p)) ps = [100, 100, 100, 100, 100, 101])"
proof -
  have w: "wf_slice buf601" by (simp add: wf_slice_def cap_def buf601_def)
  have l: "len buf601 = 601" by (simp add: buf601_def)
  have n: "1 \<le> (6::nat)" by simp
  show ?thesis using splitFile_parts[OF n w] w l by auto
qed


section \<open>Properties of the in-memory backend\<close>

lemma save_all_snoc:
  "save_all (ops @ [(name, ord, d)]) s = snd (SaveChunk (save_all ops s) name ord d)"
  by (simp add: save_all_def)

lemma save_all_other:
  "name \<notin> fst ` set ops \<Longrightarrow> storage (save_all ops s) name = storage s name"
proof (induction ops arbitrary: s)
  case Nil
  then show ?case by (simp add: save_all_def)
next
  case (Cons x ops)
  obtain n ord d where x: "x = (n, ord, d)" by (cases x)
  have "storage (save_all ops (snd (SaveChunk s n ord d))) name =
        storage (snd (SaveChunk s n ord d)) name"
    using Cons by simp
  then show ?case using Cons.prems x by (simp add: save_all_def SaveChunk_def)
qed

lemma save_all_last:
  assumes "name \<notin> fst ` set ops2"
  shows "storage (save_all (ops1 @ (name, ord, d) # ops2) s) name =
           Some \<lparr>order = ord, data = d\<rparr>"
proof -
  have "save_all (ops1 @ (name, ord, d) # ops2) s =
        save_all ops2 (snd (SaveChunk (save_all ops1 s) name ord d))"
    by (simp add: save_all_def)
  then show ?thesis using save_all_other[OF assms] by (simp add: SaveChunk_def)
qed

text \<open>
  Claim C9.  On the in-memory backend, \<^verbatim>\<open>GetChunk(name)\<close> fails exactly when no chunk
  was ever saved under \<open>name\<close>, and then with the not-found error; otherwise it returns
  the chunk of the most recent \<^verbatim>\<open>SaveChunk\<close> for \<open>name\<close>, whatever its order: the key
  is the name alone, so a later save overwrites an earlier one.
\<close>

theorem mock_GetChunk:
  "((\<exists>err. GetChunk (save_all ops (newStorageClient a)) name = Inl err) \<longleftrightarrow>
      name \<notin> fst ` set ops) \<and>
   (name \<notin> fst ` set ops \<longrightarrow>
      GetChunk (save_all ops (newStorageClient a)) name = Inl (NotFound name)) \<and>
   (\<forall>ops1 ord d ops2. ops = ops1 @ (name, ord, d) # ops2 \<and> name \<notin> fst ` set ops2 \<longrightarrow>
      GetChunk (save_all ops (newStorageClient a)) name = Inr \<lparr>order = ord, data = d\<rparr>)"
proof -
  let ?srv = "save_all ops (newStorageClient a)"
  have never: "GetChunk ?srv name = Inl (NotFound name)" if "name \<notin> fst ` set ops"
    using save_all_other[OF that, of "newStorageClient a"]
    by (simp add: GetChunk_def newStorageClient_def)
  have latest: "GetChunk ?srv name = Inr \<lparr>order = ord, data = d\<rparr>"
    if "ops = ops1 @ (name, ord, d) # ops2" "name \<notin> fst ` set ops2" for ops1 ord d ops2
    using save_all_last[OF that(2), of ops1 ord d "newStorageClient a"] that(1)
    by (simp add: GetChunk_def)
  have stored: "\<exists>ch. GetChunk ?srv name = Inr ch" if "name \<in> fst ` set ops"
  proof -
    from that have "\<exists>x\<in>set ops. fst x = name" by auto
    then obtain ops1 x ops2 where
      sp: "ops = ops1 @ x # ops2" "fst x = name" "\<forall>y\<in>set ops2. fst y \<noteq> name"
      using split_list_last_prop[of ops "\<lambda>x. fst x = name"] by blast
    obtain ord d where x: "x = (name, ord, d)" using sp(2) by (cases x) auto
    have "name \<notin> fst ` set ops2" using sp(3) by auto
    from latest[OF _ this, of ops1 ord d] sp(1) x show ?thesis by blast
  qed
  have iff: "(\<exists>err. GetChunk ?srv name = Inl err) \<longleftrightarrow> name \<notin> fst ` set ops"
    using never stored by (cases "name \<in> fst ` set ops") auto
  show ?thesis using iff never latest by blast
qed

theorem mock_GetChunk_witness:
  "GetChunk (save_all [(''r1'', 0, data_a), (''r2'', 3, data_a), (''r1'', 1, data_b)] (newStorageClient ''b0'')) ''r1''
     = Inr \<lparr>order = 1, data = data_b\<rparr> \<and>
   GetChunk (save_all [(''r1'', 0, data_a), (''r2'', 3, data_a), (''r1'', 1, data_b)] (newStorageClient ''b0'')) ''r3''
     = Inl (NotFound ''r3'')"
proof -
  let ?ops = "[(''r1'', 0, data_a), (''r2'', 3, data_a), (''r1'', 1, data_b)]"
  have a: "?ops = [(''r1'', 0, data_a), (''r2'', 3, data_a)] @ (''r1'', 1, data_b) # [] \<and>
           ''r1'' \<notin> fst ` set []" by simp
  have b: "''r3'' \<notin> fst ` set ?ops" by simp
  show ?thesis
    using mock_GetChunk[of ?ops "''b0''" "''r1''"] mock_GetChunk[of ?ops "''b0''" "''r3''"] a b
    by blast
qed

section \<open>Properties of the upload\<close>

lemma task_step_reg_inv:
  assumes "reg_inv rid fn (length parts) u"
  shows "reg_inv rid fn (length parts) (task_step rid fn parts i u)"
proof -
  obtain s pcs where u: "u = (s, pcs)" by (cases u)
  from assms u obtain recs where
    l: "length pcs = length parts" "length (servers s) = length parts" and
    r: "fileChunksDB s rid = Some recs" "distinct (map Order recs)"
       "set (map Order recs) = {i. i < length parts \<and> pcs ! i \<noteq> Ready}"
       "\<forall>r\<in>set recs. FileName r = fn \<and> ResourceID r = rid"
    by (auto simp: reg_inv_def)
  show ?thesis
  proof (cases "i < length parts")
    case False
    then show ?thesis using assms u by simp
  next
    case True
    show ?thesis
    proof (cases "pcs ! i")
      case Ready
      have notin: "i \<notin> set (map Order recs)" using r(3) Ready by simp
      have set': "{j. j < length parts \<and> pcs[i := Appended] ! j \<noteq> Ready} =
                  insert i {j. j < length parts \<and> pcs ! j \<noteq> Ready}"
        using True l(1) by (auto simp: nth_list_update)
      show ?thesis
        using True l r notin set' Ready u
        by (simp add: reg_inv_def uploadFn_append_def)
    next
      case Appended
      have set': "{j. j < length parts \<and> pcs[i := Finished e] ! j \<noteq> Ready} =
                  {j. j < length parts \<and> pcs ! j \<noteq> Ready}" for e
        using True l(1) Appended by (auto simp: nth_list_update)
      show ?thesis
        using True l r set' Appended u
        by (simp add: reg_inv_def uploadFn_save_def SaveChunk_def)
    next
      case (Finished e)
      then show ?thesis using True l assms u by simp
    qed
  qed
qed

lemma task_step_srv_inv:
  assumes "srv_inv rid parts s1 u" "length (snd u) = length parts"
    "length (servers (fst u)) = length parts"
  shows "srv_inv rid parts s1 (task_step rid fn parts i u)"
proof -
  obtain s pcs where u: "u = (s, pcs)" by (cases u)
  have l: "length pcs = length parts" "length (servers s) = length parts"
    using assms(2,3) u by simp_all
  have inv: "\<And>j. j < length parts \<Longrightarrow>
           (pcs ! j = Ready \<or> pcs ! j = Appended \<longrightarrow> servers s ! j = servers s1 ! j) \<and>
           (\<forall>e. pcs ! j = Finished e \<longrightarrow>
              e = None \<and> storage (servers s ! j) rid = Some \<lparr>order = j, data = parts ! j\<rparr>)"
    using assms(1) u by (simp add: srv_inv_def)
  show ?thesis
  proof (cases "i < length parts")
    case False
    then show ?thesis using assms u by simp
  next
    case True
    show ?thesis
    proof (cases "pcs ! i")
      case Ready
      show ?thesis
        using True l inv Ready u
        by (auto simp: srv_inv_def uploadFn_append_def nth_list_update)
    next
      case Appended
      show ?thesis
        using True l inv Appended u
        by (auto simp: srv_inv_def uploadFn_save_def SaveChunk_def nth_list_update)
    next
      case (Finished e)
      then show ?thesis using True l assms u by simp
    qed
  qed
qed

lemma reg_inv_lengths:
  "reg_inv rid fn n u \<Longrightarrow> length (snd u) = n \<and> length (servers (fst u)) = n"
  by (cases u) (simp add: reg_inv_def)

lemma run_tasks_inv:
  assumes "reg_inv rid fn (length parts) u" "srv_inv rid parts s1 u"
  shows "reg_inv rid fn (length parts) (run_tasks rid fn parts sched u) \<and>
         srv_inv rid parts s1 (run_tasks rid fn parts sched u)"
  using assms
proof (induction sched arbitrary: u)
  case Nil
  then show ?case by (simp add: run_tasks_def)
next
  case (Cons i sched)
  have a: "reg_inv rid fn (length parts) (task_step rid fn parts i u)"
    using Cons.prems(1) by (rule task_step_reg_inv)
  have b: "srv_inv rid parts s1 (task_step rid fn parts i u)"
    using Cons.prems reg_inv_lengths[OF Cons.prems(1)] by (simp add: task_step_srv_inv)
  show ?case using Cons.IH[OF a b] by (simp add: run_tasks_def)
qed

lemma init_inv:
  assumes "length (servers s) = length parts"
  shows "reg_inv rid fn (length parts)
           (s\<lparr>fileChunksDB := (fileChunksDB s)(rid \<mapsto> [])\<rparr>, replicate (length parts) Ready)"
    and "srv_inv rid parts (s\<lparr>fileChunksDB := (fileChunksDB s)(rid \<mapsto> [])\<rparr>)
           (s\<lparr>fileChunksDB := (fileChunksDB s)(rid \<mapsto> [])\<rparr>, replicate (length parts) Ready)"
  using assms by (simp_all add: reg_inv_def srv_inv_def)


lemma read_after_copy:
  "io_Copy [] \<lparr>content = c, pos = 0\<rparr> = (c, \<lparr>content = c, pos = length c\<rparr>)"
  "io_ReadAll sp \<lparr>content = c, pos = length c\<rparr> =
     (\<lparr>arr = replicate sp 0, len = 0\<rparr>, \<lparr>content = c, pos = length c\<rparr>)"
  by (simp_all add: io_Copy_def io_ReadAll_def read_to_EOF_def)

lemma uploadHandler_Created:
  assumes "uploadHandler e m form s = Some (Inr (Created resp), s')"
  shows "\<exists>fname fcontent parts pcs.
     m = ''POST'' \<and> form = Some (fname, fcontent) \<and>
     splitFile (length (servers s)) \<lparr>arr = replicate (readAllSpare e) 0, len = 0\<rparr> = Inr parts \<and>
     run_tasks (uuid e) fname parts (schedule e)
       (s\<lparr>fileChunksDB := (fileChunksDB s)(uuid e \<mapsto> [])\<rparr>, replicate (length parts) Ready)
       = (s', pcs) \<and>
     list_all is_Finished pcs \<and>
     resp = \<lparr>Resource = uuid e, Checksum = hex (sha256 e fcontent)\<rparr>"
  using assms
  by (auto simp: uploadHandler_def read_after_copy Let_def
           split: if_splits option.splits sum.splits prod.splits)

lemma splitFile_Inr:
  assumes "splitFile n fl = Inr parts" "wf_slice fl"
  shows "0 < n \<and> parts = map (part_at fl n (len fl div n)) [0..<n]"
proof -
  have "0 < n" using assms(1) by (cases n) (simp_all add: splitFile_def)
  then show ?thesis using splitFile_eq[OF assms(2), of n] assms(1) by simp
qed

lemma is_Finished_iff: "is_Finished p = (\<exists>e. p = Finished e)"
  by (cases p) simp_all

lemma advance_Finished [simp]: "advance k (Finished e) = Finished e"
  by (cases k) simp_all

lemma advance_two: "2 \<le> k \<Longrightarrow> advance k Ready = Finished None"
proof -
  assume "2 \<le> k"
  then obtain j where "k = Suc (Suc j)" by (metis add_2_eq_Suc le_Suc_ex)
  then show ?thesis by simp
qed

lemma task_step_pcs:
  assumes "length pcs = length parts" "length (servers s) = length parts"
    "task_step rid fn parts j (s, pcs) = (s', pcs')"
  shows "length pcs' = length parts \<and> length (servers s') = length parts \<and>
         (\<forall>i<length parts. pcs' ! i = (if i = j then advance 1 (pcs ! i) else pcs ! i))"
proof (cases "j < length parts")
  case False
  then show ?thesis using assms by auto
next
  case True
  show ?thesis
  proof (cases "pcs ! j")
    case Ready
    then show ?thesis using assms True
      by (auto simp: uploadFn_append_def nth_list_update)
  next
    case Appended
    then show ?thesis using assms True
      by (auto simp: uploadFn_save_def SaveChunk_def nth_list_update)
  next
    case (Finished e)
    then show ?thesis using assms True by auto
  qed
qed

lemma advance_Suc: "advance (Suc k) p = advance k (advance 1 p)"
  by (cases p) simp_all

lemma run_tasks_pcs:
  assumes "length pcs = length parts" "length (servers s) = length parts"
    "run_tasks rid fn parts sched (s, pcs) = (s', pcs')"
  shows "length pcs' = length parts \<and>
         (\<forall>i<length parts. pcs' ! i = advance (count_list sched i) (pcs ! i))"
  using assms
proof (induction sched arbitrary: s pcs)
  case Nil
  then show ?case by (simp add: run_tasks_def)
next
  case (Cons j sched)
  obtain s1 pcs1 where st: "task_step rid fn parts j (s, pcs) = (s1, pcs1)"
    by (cases "task_step rid fn parts j (s, pcs)")
  from task_step_pcs[OF Cons.prems(1,2) st] have
    l: "length pcs1 = length parts" "length (servers s1) = length parts" and
    p: "\<forall>i<length parts. pcs1 ! i = (if i = j then advance 1 (pcs ! i) else pcs ! i)"
    by simp_all
  have run: "run_tasks rid fn parts sched (s1, pcs1) = (s', pcs')"
    using Cons.prems(3) st by (simp add: run_tasks_def)
  from Cons.IH[OF l run] have
    l': "length pcs' = length parts" and
    p': "\<forall>i<length parts. pcs' ! i = advance (count_list sched i) (pcs1 ! i)"
    by simp_all
  have "pcs' ! i = advance (count_list (j # sched) i) (pcs ! i)" if "i < length parts" for i
  proof (cases "i = j")
    case True
    have "pcs' ! i = advance (count_list sched i) (advance 1 (pcs ! i))"
      using p p' that True by simp
    also have "\<dots> = advance (Suc (count_list sched i)) (pcs ! i)"
      by (rule advance_Suc[symmetric])
    finally show ?thesis using True by simp
  next
    case False
    then show ?thesis using p p' that by simp
  qed
  then show ?case using l' by simp
qed

text \<open>
  The upload returns, with the 201 reply, under every schedule in which each goroutine
  takes its two steps.
\<close>

lemma upload_returns:
  assumes "0 < length (servers s)"
    and "\<forall>i<length (servers s). 2 \<le> count_list (schedule e) i"
  shows "\<exists>s'. uploadHandler e ''POST'' (Some (fname, fcontent)) s =
           Some (Inr (Created \<lparr>Resource = uuid e, Checksum = hex (sha256 e fcontent)\<rparr>), s')"
proof -
  let ?fl = "\<lparr>arr = replicate (readAllSpare e) 0, len = 0\<rparr>"
  let ?n = "length (servers s)"
  let ?parts = "map (part_at ?fl ?n (len ?fl div ?n)) [0..<?n]"
  let ?s1 = "s\<lparr>fileChunksDB := (fileChunksDB s)(uuid e \<mapsto> [])\<rparr>"
  have wf: "wf_slice ?fl" by (simp add: wf_slice_def)
  have sp: "splitFile ?n ?fl = Inr ?parts" using wf assms(1) by (rule splitFile_eq)
  obtain s' pcs where run: "run_tasks (uuid e) fname ?parts (schedule e)
      (?s1, replicate (length ?parts) Ready) = (s', pcs)"
    by (cases "run_tasks (uuid e) fname ?parts (schedule e)
      (?s1, replicate (length ?parts) Ready)")
  have "length pcs = length ?parts \<and>
        (\<forall>i<length ?parts. pcs ! i = advance (count_list (schedule e) i)
                                        (replicate (length ?parts) Ready ! i))"
    by (rule run_tasks_pcs[OF _ _ run]) simp_all
  then have l: "length pcs = ?n" and
    p: "\<forall>i<?n. pcs ! i = Finished None"
    using assms(2) by (simp_all add: advance_two)
  have fin: "list_all is_Finished pcs" using l p by (simp add: list_all_length)
  have nf: "\<not> list_ex failed pcs" using l p by (auto simp: list_ex_length)
  have "uploadHandler e ''POST'' (Some (fname, fcontent)) s =
          Some (Inr (Created \<lparr>Resource = uuid e, Checksum = hex (sha256 e fcontent)\<rparr>), s')"
    using sp run fin nf
    by (simp add: uploadHandler_def read_after_copy Let_def del: upt.simps)
  then show ?thesis ..
qed

lemma is_Created:
  assumes "case r of Some (Inr (Created resp), s') \<Rightarrow> True | _ \<Rightarrow> False"
  shows "\<exists>resp s'. r = Some (Inr (Created resp), s')"
proof (cases r)
  case None
  then show ?thesis using assms by simp
next
  case (Some p)
  obtain x s' where p: "p = (x, s')" by (cases p)
  show ?thesis
  proof (cases x)
    case (Inl a)
    then show ?thesis using assms Some p by simp
  next
    case (Inr b)
    then show ?thesis using assms Some p by (cases b) simp_all
  qed
qed

text \<open>
  Claim C6.  After an upload that completes successfully, the \<open>Order\<close> values of the
  records stored under its resource identifier are exactly \<open>0, \<dots>, N - 1\<close>, each once,
  where \<open>N\<close> is the number of backends.
\<close>

theorem upload_registry:
  assumes "uploadHandler e m form s = Some (Inr (Created resp), s')"
  shows "\<exists>recs. fileChunksDB s' (Resource resp) = Some recs \<and>
           set (map Order recs) = {0..<length (servers s)} \<and> distinct (map Order recs)"
proof -
  from uploadHandler_Created[OF assms] obtain fname fcontent parts pcs where
    sp: "splitFile (length (servers s)) \<lparr>arr = replicate (readAllSpare e) 0, len = 0\<rparr> = Inr parts"
    and run: "run_tasks (uuid e) fname parts (schedule e)
       (s\<lparr>fileChunksDB := (fileChunksDB s)(uuid e \<mapsto> [])\<rparr>, replicate (length parts) Ready)
       = (s', pcs)"
    and fin: "list_all is_Finished pcs"
    and resp: "resp = \<lparr>Resource = uuid e, Checksum = hex (sha256 e fcontent)\<rparr>"
    by blast
  have n: "length parts = length (servers s)"
    using splitFile_Inr[OF sp] by (simp add: wf_slice_def cap_def)
  let ?s1 = "s\<lparr>fileChunksDB := (fileChunksDB s)(uuid e \<mapsto> [])\<rparr>"
  have i1: "reg_inv (uuid e) fname (length parts) (?s1, replicate (length parts) Ready)"
    using n by (intro init_inv(1)) simp
  have i2: "srv_inv (uuid e) parts ?s1 (?s1, replicate (length parts) Ready)"
    using n by (intro init_inv(2)) simp
  have "reg_inv (uuid e) fname (length parts) (s', pcs)"
    using run_tasks_inv[OF i1 i2, of "schedule e"] unfolding run by (rule conjunct1)
  then obtain recs where
    l: "length pcs = length parts" and
    r: "fileChunksDB s' (uuid e) = Some recs" "distinct (map Order recs)"
       "set (map Order recs) = {i. i < length parts \<and> pcs ! i \<noteq> Ready}"
    by (auto simp: reg_inv_def)
  have "pcs ! i \<noteq> Ready" if "i < length parts" for i
  proof -
    have "is_Finished (pcs ! i)" using fin that l by (simp add: list_all_length)
    then show ?thesis by (auto simp: is_Finished_iff)
  qed
  then have "{i. i < length parts \<and> pcs ! i \<noteq> Ready} = {0..<length (servers s)}"
    using n by auto
  then show ?thesis using r resp by simp
qed


theorem upload_registry_witness:
  "\<exists>resp s'. uploadHandler example_env ''POST'' (Some (''a.txt'', hello)) two_backends =
       Some (Inr (Created resp), s') \<and>
     (\<exists>recs. fileChunksDB s' (Resource resp) = Some recs \<and>
        set (map Order recs) = {0..<length (servers two_backends)} \<and>
        distinct (map Order recs))"
proof -
  have "case uploadHandler example_env ''POST'' (Some (''a.txt'', hello)) two_backends of
          Some (Inr (Created resp), s') \<Rightarrow> True | _ \<Rightarrow> False"
    by code_simp
  then obtain resp s' where
    h: "uploadHandler example_env ''POST'' (Some (''a.txt'', hello)) two_backends =
          Some (Inr (Created resp), s')"
    using is_Created by blast
  from upload_registry[OF h] h show ?thesis by blast
qed

text \<open>
  Claim C4.  For every successful upload, the checksum returned is the hexadecimal
  encoding of the digest of the whole content of the uploaded file, whatever the digest
  function is.
\<close>

theorem upload_checksum:
  assumes "uploadHandler e m (Some (fname, fcontent)) s = Some (Inr (Created resp), s')"
  shows "Checksum resp = hex (sha256 e fcontent)"
  using uploadHandler_Created[OF assms] by auto

theorem upload_checksum_witness:
  "\<exists>resp s'. uploadHandler example_env ''POST'' (Some (''a.txt'', hello)) two_backends =
       Some (Inr (Created resp), s') \<and>
     Checksum resp = hex (sha256 example_env hello) \<and> Checksum resp = ''0c0d''"
proof -
  have "case uploadHandler example_env ''POST'' (Some (''a.txt'', hello)) two_backends of
          Some (Inr (Created resp), s') \<Rightarrow> True | _ \<Rightarrow> False"
    by code_simp
  then obtain resp s' where
    h: "uploadHandler example_env ''POST'' (Some (''a.txt'', hello)) two_backends =
          Some (Inr (Created resp), s')"
    using is_Created by blast
  have x: "hex (sha256 example_env hello) = ''0c0d''"
    by code_simp
  from upload_checksum[OF h] h x show ?thesis by simp
qed

text \<open>
  Claim C2, as the code has it.  The record of part \<open>i\<close> is appended to the registry
  before \<^verbatim>\<open>SaveChunk\<close> is called for it, not after the call has succeeded.  At every
  point of an upload, under every schedule: the entry holds a record of part \<open>i\<close> exactly
  when goroutine \<open>i\<close> has passed its append; while the goroutine stands between its
  append and its \<^verbatim>\<open>SaveChunk\<close>, backend \<open>i\<close> is as it was before the upload; once
  \<^verbatim>\<open>SaveChunk\<close> has returned, backend \<open>i\<close> holds part \<open>i\<close>.
\<close>

theorem upload_record_before_save:
  assumes "length parts = length (servers s)"
    and "run_tasks rid fn parts sched
           (s\<lparr>fileChunksDB := (fileChunksDB s)(rid \<mapsto> [])\<rparr>, replicate (length parts) Ready)
         = (s', pcs)"
  shows "\<exists>recs. fileChunksDB s' rid = Some recs \<and>
           (\<forall>i<length parts. (i \<in> Order ` set recs) = (pcs ! i \<noteq> Ready)) \<and>
           (\<forall>i<length parts. pcs ! i = Appended \<longrightarrow> servers s' ! i = servers s ! i) \<and>
           (\<forall>i<length parts. \<forall>e. pcs ! i = Finished e \<longrightarrow>
              storage (servers s' ! i) rid = Some \<lparr>order = i, data = parts ! i\<rparr>)"
proof -
  let ?s1 = "s\<lparr>fileChunksDB := (fileChunksDB s)(rid \<mapsto> [])\<rparr>"
  have i1: "reg_inv rid fn (length parts) (?s1, replicate (length parts) Ready)"
    using assms(1) by (intro init_inv(1)) simp
  have i2: "srv_inv rid parts ?s1 (?s1, replicate (length parts) Ready)"
    using assms(1) by (intro init_inv(2)) simp
  have inv: "reg_inv rid fn (length parts) (s', pcs)" "srv_inv rid parts ?s1 (s', pcs)"
    using run_tasks_inv[OF i1 i2, of sched] unfolding assms(2) by simp_all
  from inv(1) obtain recs where
    r: "fileChunksDB s' rid = Some recs"
       "set (map Order recs) = {i. i < length parts \<and> pcs ! i \<noteq> Ready}"
    by (auto simp: reg_inv_def)
  have a: "\<forall>i<length parts. (i \<in> Order ` set recs) = (pcs ! i \<noteq> Ready)"
    using r(2) by auto
  have b: "\<forall>i<length parts. pcs ! i = Appended \<longrightarrow> servers s' ! i = servers s ! i"
    using inv(2) by (simp add: srv_inv_def)
  have c: "\<forall>i<length parts. \<forall>e. pcs ! i = Finished e \<longrightarrow>
              storage (servers s' ! i) rid = Some \<lparr>order = i, data = parts ! i\<rparr>"
    using inv(2) by (simp add: srv_inv_def)
  show ?thesis using r(1) a b c by blast
qed

theorem upload_record_before_save_witness:
  "\<exists>recs. fileChunksDB (fst mid_upload) ''r1'' = Some recs \<and>
     (\<forall>i<length (split_of []). (i \<in> Order ` set recs) = (snd mid_upload ! i \<noteq> Ready)) \<and>
     (\<forall>i<length (split_of []). snd mid_upload ! i = Appended \<longrightarrow>
        servers (fst mid_upload) ! i = servers two_backends ! i) \<and>
     (\<forall>i<length (split_of []). \<forall>e. snd mid_upload ! i = Finished e \<longrightarrow>
        storage (servers (fst mid_upload) ! i) ''r1'' =
          Some \<lparr>order = i, data = split_of [] ! i\<rparr>)"
proof -
  have l: "length (split_of []) = 2" by code_simp
  have a: "length (split_of []) = length (servers two_backends)"
    using l by (simp add: two_backends_def)
  have b: "run_tasks ''r1'' ''a.txt'' (split_of []) [0]
             (two_backends\<lparr>fileChunksDB := (fileChunksDB two_backends)(''r1'' \<mapsto> [])\<rparr>,
              replicate (length (split_of [])) Ready)
           = (fst mid_upload, snd mid_upload)"
    using l by (simp add: mid_upload_def empty_entry_def numeral_2_eq_2)
  show ?thesis using upload_record_before_save[OF a b] .
qed

text \<open>
  The claim as it is written fails: after the first step of goroutine 0 the record of
  part 0 is in the registry, and backend 0 holds no chunk for the resource.
\<close>

theorem upload_record_before_save_counterexample:
  "fileChunksDB (fst mid_upload) ''r1'' =
     Some [\<lparr>ResourceID = ''r1'', FileName = ''a.txt'', Order = 0, URL = ''TBD''\<rparr>] \<and>
   snd mid_upload = [Appended, Ready] \<and>
   GetChunk (servers (fst mid_upload) ! 0) ''r1'' = Inl (NotFound ''r1'')"
  by code_simp

section \<open>Properties of the download\<close>

lemma downloadLoop_append:
  "downloadLoop srvs rid (xs @ ys) buf =
     (case downloadLoop srvs rid xs buf of
        Inr (Inr b) \<Rightarrow> downloadLoop srvs rid ys b
      | other \<Rightarrow> other)"
  by (induction xs arbitrary: buf) (auto simp: Let_def split: sum.splits)

lemma downloadLoop_fetched:
  assumes "map (chunk_of srvs rid) recs = map Some chs"
  shows "downloadLoop srvs rid recs buf =
     (if \<exists>ch\<in>set chs. cap (data ch) < 10 then Inl SliceBounds
      else Inr (Inr (buf @ concat (map (\<lambda>ch. bytes (data ch)) chs))))"
  using assms
proof (induction recs arbitrary: chs buf)
  case Nil
  then show ?case by simp
next
  case (Cons r recs)
  then obtain ch chs' where chs: "chs = ch # chs'" by (cases chs) auto
  from Cons.prems chs have c: "chunk_of srvs rid r = Some ch"
    and m: "map (chunk_of srvs rid) recs = map Some chs'" by simp_all
  from c have o: "Order r < length srvs" "GetChunk (srvs ! Order r) rid = Inr ch"
    by (auto simp: chunk_of_def GetChunk_def split: if_splits)
  show ?case
  proof (cases "cap (data ch) < 10")
    case True
    then show ?thesis using o chs by (simp add: slice_range_def)
  next
    case False
    then show ?thesis using o chs Cons.IH[OF m] by (simp add: slice_range_def)
  qed
qed

lemma downloadLoop_Inr:
  assumes "downloadLoop srvs rid recs buf = Inr (Inr out)"
  shows "\<exists>chs. map (chunk_of srvs rid) recs = map Some chs"
  using assms
proof (induction recs arbitrary: buf)
  case Nil
  then show ?case by simp
next
  case (Cons r recs)
  from Cons.prems obtain ch where o: "Order r < length srvs"
    "GetChunk (srvs ! Order r) rid = Inr ch"
    and rest: "downloadLoop srvs rid recs (buf @ bytes (data ch)) = Inr (Inr out)"
    by (auto split: if_splits sum.splits)
  from Cons.IH[OF rest] obtain chs where "map (chunk_of srvs rid) recs = map Some chs" ..
  moreover have "chunk_of srvs rid r = Some ch"
    using o by (auto simp: chunk_of_def GetChunk_def split: option.splits)
  ultimately have "map (chunk_of srvs rid) (r # recs) = map Some (ch # chs)" by simp
  then show ?case by blast
qed

lemma downloadLoop_reply:
  "downloadLoop srvs rid recs buf = Inr (Inl reply) \<Longrightarrow>
   reply = Error ''Failed to get file chunk'' 500"
  by (induction recs arbitrary: buf) (auto split: if_splits sum.splits)

lemma downloadHandler_fetched:
  assumes "fileChunksDB s rid = Some recs" "recs \<noteq> []" "rid \<noteq> []"
    "map (chunk_of (servers s) rid) recs = map Some chs"
  shows "downloadHandler ''GET'' rid s =
     (if (\<exists>ch\<in>set chs. cap (data ch) < 10) \<or>
         length (concat (map (\<lambda>ch. bytes (data ch)) chs)) < 10
      then Inl SliceBounds
      else Inr (File (FileName (hd recs)) (concat (map (\<lambda>ch. bytes (data ch)) chs))))"
proof -
  obtain r rest where recs: "recs = r # rest" using assms(2) by (cases recs) auto
  have "downloadLoop (servers s) rid (r # rest) [] =
     (if \<exists>ch\<in>set chs. cap (data ch) < 10 then Inl SliceBounds
      else Inr (Inr ([] @ concat (map (\<lambda>ch. bytes (data ch)) chs))))"
    using assms(4) unfolding recs by (rule downloadLoop_fetched)
  then show ?thesis
    using assms(1,3) recs
    by (simp add: downloadHandler_def string_range_def del: downloadLoop.simps)
qed

text \<open>
  Claim C7.  For a resource identifier whose registry entry is absent or empty, the
  download replies 404 "File not found"; the reply carries no file content.
\<close>

theorem download_not_found:
  assumes "fileChunksDB s rid = None \<or> fileChunksDB s rid = Some []" and "rid \<noteq> []"
  shows "downloadHandler ''GET'' rid s = Inr (Error ''File not found'' 404)"
  using assms by (auto simp: downloadHandler_def)

theorem download_not_found_witness:
  "(fileChunksDB two_backends ''r1'' = None \<or> fileChunksDB two_backends ''r1'' = Some []) \<and>
   ''r1'' \<noteq> [] \<and>
   downloadHandler ''GET'' ''r1'' two_backends = Inr (Error ''File not found'' 404) \<and>
   downloadHandler ''GET'' ''r1'' empty_entry = Inr (Error ''File not found'' 404)"
proof -
  have a: "fileChunksDB two_backends ''r1'' = None \<or> fileChunksDB two_backends ''r1'' = Some []"
    by (simp add: two_backends_def)
  have b: "fileChunksDB empty_entry ''r1'' = None \<or> fileChunksDB empty_entry ''r1'' = Some []"
    by (simp add: empty_entry_def)
  have c: "''r1'' \<noteq> []" by simp
  show ?thesis
    using download_not_found[OF a c] download_not_found[OF b c] a by simp
qed

text \<open>
  Claim C8.  If the loop of the download reaches record \<open>k\<close> and \<^verbatim>\<open>GetChunk\<close> fails
  for it, the download replies 500 "Failed to get file chunk": none of the bytes assembled
  so far is returned.
\<close>

theorem download_GetChunk_fails:
  assumes "fileChunksDB s rid = Some recs" and "rid \<noteq> []" and "k < length recs"
    and "downloadLoop (servers s) rid (take k recs) [] = Inr (Inr buf)"
    and "Order (recs ! k) < length (servers s)"
    and "GetChunk (servers s ! Order (recs ! k)) rid = Inl err"
  shows "downloadHandler ''GET'' rid s = Inr (Error ''Failed to get file chunk'' 500)"
proof -
  have split: "recs = take k recs @ recs ! k # drop (Suc k) recs"
    using assms(3) by (simp add: id_take_nth_drop)
  have "downloadLoop (servers s) rid (recs ! k # drop (Suc k) recs) buf =
          Inr (Inl (Error ''Failed to get file chunk'' 500))"
    using assms(5,6) by simp
  then have "downloadLoop (servers s) rid (take k recs @ recs ! k # drop (Suc k) recs) [] =
          Inr (Inl (Error ''Failed to get file chunk'' 500))"
    using assms(4) by (simp add: downloadLoop_append del: downloadLoop.simps)
  then have loop: "downloadLoop (servers s) rid recs [] =
          Inr (Inl (Error ''Failed to get file chunk'' 500))"
    using split by simp
  obtain r rest where recs: "recs = r # rest" using assms(3) by (cases recs) auto
  show ?thesis
    using assms(1,2) loop unfolding recs
    by (simp add: downloadHandler_def del: downloadLoop.simps)
qed

theorem download_GetChunk_fails_witness:
  "fileChunksDB (fst mid_upload) ''r1'' =
     Some [\<lparr>ResourceID = ''r1'', FileName = ''a.txt'', Order = 0, URL = ''TBD''\<rparr>] \<and>
   GetChunk (servers (fst mid_upload) ! 0) ''r1'' = Inl (NotFound ''r1'') \<and>
   downloadHandler ''GET'' ''r1'' (fst mid_upload) = Inr (Error ''Failed to get file chunk'' 500)"
proof -
  let ?recs = "[\<lparr>ResourceID = ''r1'', FileName = ''a.txt'', Order = 0, URL = ''TBD''\<rparr>]"
  have a: "fileChunksDB (fst mid_upload) ''r1'' = Some ?recs" by code_simp
  have b: "''r1'' \<noteq> []" by simp
  have c: "0 < length ?recs" by simp
  have d: "downloadLoop (servers (fst mid_upload)) ''r1'' (take 0 ?recs) [] = Inr (Inr [])"
    by simp
  have e: "Order (?recs ! 0) < length (servers (fst mid_upload))" by code_simp
  have f: "GetChunk (servers (fst mid_upload) ! Order (?recs ! 0)) ''r1'' = Inl (NotFound ''r1'')"
    by code_simp
  show ?thesis
    using download_GetChunk_fails[OF a b c d e f] a f by simp
qed

text \<open>
  Claim C10, as the code has it.  \<^verbatim>\<open>ch.data[:10]\<close> is a slice expression on a slice,
  bounded by the capacity of the chunk, and \<^verbatim>\<open>content[:10]\<close> one on a string, bounded
  by its length.  When every chunk of the entry is fetched, the download panics exactly when
  some chunk has a capacity below 10 or the assembled content is shorter than 10 bytes, and
  it replies with the file exactly when every chunk has a capacity of at least 10 and the
  content has at least 10 bytes.
\<close>

theorem download_log_panics:
  assumes "fileChunksDB s rid = Some recs" and "recs \<noteq> []" and "rid \<noteq> []"
    and "map (chunk_of (servers s) rid) recs = map Some chs"
  shows "(downloadHandler ''GET'' rid s = Inl SliceBounds \<longleftrightarrow>
            (\<exists>ch\<in>set chs. cap (data ch) < 10) \<or>
            length (concat (map (\<lambda>ch. bytes (data ch)) chs)) < 10) \<and>
         ((\<exists>fname body. downloadHandler ''GET'' rid s = Inr (File fname body)) \<longleftrightarrow>
            (\<forall>ch\<in>set chs. 10 \<le> cap (data ch)) \<and>
            10 \<le> length (concat (map (\<lambda>ch. bytes (data ch)) chs)))"
proof -
  let ?bad = "(\<exists>ch\<in>set chs. cap (data ch) < 10) \<or>
              length (concat (map (\<lambda>ch. bytes (data ch)) chs)) < 10"
  have neg: "(\<not> ?bad) = ((\<forall>ch\<in>set chs. 10 \<le> cap (data ch)) \<and>
            10 \<le> length (concat (map (\<lambda>ch. bytes (data ch)) chs)))"
    by (auto simp: not_less)
  show ?thesis
  proof (cases ?bad)
    case True
    then have "downloadHandler ''GET'' rid s = Inl SliceBounds"
      unfolding downloadHandler_fetched[OF assms] by simp
    then show ?thesis using True neg by auto
  next
    case False
    then have "downloadHandler ''GET'' rid s =
        Inr (File (FileName (hd recs)) (concat (map (\<lambda>ch. bytes (data ch)) chs)))"
      unfolding downloadHandler_fetched[OF assms] by simp
    then show ?thesis using False neg by auto
  qed
qed

theorem download_log_panics_witness:
  "fileChunksDB stored_hello ''r1'' =
     Some [\<lparr>ResourceID = ''r1'', FileName = ''a.txt'', Order = 1, URL = ''TBD''\<rparr>,
           \<lparr>ResourceID = ''r1'', FileName = ''a.txt'', Order = 0, URL = ''TBD''\<rparr>] \<and>
   chunk_sizes stored_hello ''r1'' = [Some (6, 524), Some (6, 518)] \<and>
   (\<exists>fname body. downloadHandler ''GET'' ''r1'' stored_hello = Inr (File fname body)) \<and>
   chunk_sizes uploaded ''r1'' = [Some (0, 512), Some (0, 512)] \<and>
   downloadHandler ''GET'' ''r1'' uploaded = Inl SliceBounds"
proof -
  let ?recs = "[\<lparr>ResourceID = ''r1'', FileName = ''a.txt'', Order = 1, URL = ''TBD''\<rparr>,
           \<lparr>ResourceID = ''r1'', FileName = ''a.txt'', Order = 0, URL = ''TBD''\<rparr>]"
  let ?chs = "[\<lparr>order = 1, data = split_of hello ! 1\<rparr>, \<lparr>order = 0, data = split_of hello ! 0\<rparr>]"
  let ?chs' = "[\<lparr>order = 1, data = split_of [] ! 1\<rparr>, \<lparr>order = 0, data = split_of [] ! 0\<rparr>]"
  have a: "fileChunksDB stored_hello ''r1'' = Some ?recs" by code_simp
  have b: "?recs \<noteq> []" by simp
  have c: "''r1'' \<noteq> []" by simp
  have d: "map (chunk_of (servers stored_hello) ''r1'') ?recs = map Some ?chs" by code_simp
  have e: "\<forall>ch\<in>set ?chs. 10 \<le> cap (data ch)" by code_simp
  have f: "10 \<le> length (concat (map (\<lambda>ch. bytes (data ch)) ?chs))" by code_simp
  have g: "chunk_sizes stored_hello ''r1'' = [Some (6, 524), Some (6, 518)]" by code_simp
  have a': "fileChunksDB uploaded ''r1'' = Some ?recs" by code_simp
  have d': "map (chunk_of (servers uploaded) ''r1'') ?recs = map Some ?chs'" by code_simp
  have f': "length (concat (map (\<lambda>ch. bytes (data ch)) ?chs')) < 10" by code_simp
  have g': "chunk_sizes uploaded ''r1'' = [Some (0, 512), Some (0, 512)]" by code_simp
  show ?thesis
    using download_log_panics[OF a b c d] download_log_panics[OF a' b c d'] a e f f' g g'
    by blast
qed

text \<open>
  The claim as it is written fails: two chunks of 6 bytes each, cut from a buffer of
  capacity 524, are fetched and the download replies with the 12 bytes.
\<close>

theorem download_log_panics_counterexample:
  "chunk_sizes stored_hello ''r1'' = [Some (6, 524), Some (6, 518)] \<and>
   downloadHandler ''GET'' ''r1'' stored_hello =
     Inr (File ''a.txt'' [119, 111, 114, 108, 100, 33, 104, 101, 108, 108, 111, 32])"
  by code_simp

text \<open>
  Whenever the download replies with a file, its body is the concatenation, in the order in
  which the records are stored in the registry entry, of the bytes of the chunk that the
  backend with index \<open>Order\<close> of each record holds for the resource; the file name is
  that of the first record.
\<close>

lemma downloadHandler_File:
  assumes "downloadHandler ''GET'' rid s = Inr (File fname body)"
  shows "\<exists>recs chs. fileChunksDB s rid = Some recs \<and> recs \<noteq> [] \<and>
           map (chunk_of (servers s) rid) recs = map Some chs \<and>
           body = concat (map (\<lambda>ch. bytes (data ch)) chs) \<and>
           fname = FileName (hd recs)"
proof -
  from assms obtain recs where r: "fileChunksDB s rid = Some recs" "recs \<noteq> []" "rid \<noteq> []"
    by (auto simp: downloadHandler_def split: if_splits option.splits list.splits)
  obtain r0 rest where recs: "recs = r0 # rest" using r(2) by (cases recs) auto
  from assms r(1,3) recs have "downloadLoop (servers s) rid recs [] = Inr (Inr body)"
    by (auto simp: downloadHandler_def string_range_def simp del: downloadLoop.simps
        split: sum.splits if_splits dest: downloadLoop_reply)
  from downloadLoop_Inr[OF this] obtain chs where
    m: "map (chunk_of (servers s) rid) recs = map Some chs" ..
  from assms show ?thesis
    unfolding downloadHandler_fetched[OF r m] using r m by (auto split: if_splits)
qed

text \<open>
  Claim C5 does not hold of the code.  The claim has the download fetch and append the
  chunks in ascending \<open>Order\<close>, the stored records being in that order.  The goroutines
  of an upload append their records in the order in which they are scheduled, and the
  download walks the entry as it is stored, without sorting it.  When goroutine 1 appends
  before goroutine 0, the upload succeeds and the entry lists \<open>Order\<close> 1 before
  \<open>Order\<close> 0; with the two halves of \<open>hello\<close> on the two backends under such an
  entry, the download returns the second half followed by the first.
\<close>

theorem download_stored_order:
  "map_option fst (uploadHandler example_env ''POST'' (Some (''a.txt'', hello)) two_backends) =
     Some (Inr (Created \<lparr>Resource = ''r1'', Checksum = ''0c0d''\<rparr>)) \<and>
   map_option (map Order) (fileChunksDB uploaded ''r1'') = Some [1, 0] \<and>
   map_option (map Order) (fileChunksDB stored_hello ''r1'') = Some [1, 0] \<and>
   map (map_option order) (map (chunk_of (servers stored_hello) ''r1'')
     [\<lparr>ResourceID = ''r1'', FileName = ''a.txt'', Order = 0, URL = ''TBD''\<rparr>,
      \<lparr>ResourceID = ''r1'', FileName = ''a.txt'', Order = 1, URL = ''TBD''\<rparr>]) =
     [Some 0, Some 1] \<and>
   hello = [104, 101, 108, 108, 111, 32, 119, 111, 114, 108, 100, 33] \<and>
   downloadHandler ''GET'' ''r1'' stored_hello =
     Inr (File ''a.txt'' [119, 111, 114, 108, 100, 33, 104, 101, 108, 108, 111, 32])"
  by code_simp

section \<open>Upload followed by download\<close>

lemma part_at_empty:
  "bytes (part_at \<lparr>arr = xs, len = 0\<rparr> n 0 i) = []"
  by (simp add: part_at_def bytes_def)

text \<open>
  Claim C1 does not hold of the code.  \<^verbatim>\<open>uploadHandler\<close> reads the form file to its
  end for the checksum and then reads it again for the content, which yields no bytes:
  after every successful upload each backend holds an empty chunk for the resource, and
  the download of the returned identifier panics at a slice expression evaluated for the
  log (\<^verbatim>\<open>content[:10]\<close> on the empty content, when the chunks have a capacity of at
  least 10) instead of returning the uploaded bytes.
\<close>

theorem upload_then_download:
  assumes "uploadHandler e m form s = Some (Inr (Created resp), s')" and "uuid e \<noteq> []"
  shows "(\<forall>i<length (servers s'). \<exists>ch. storage (servers s' ! i) (Resource resp) = Some ch \<and>
            bytes (data ch) = []) \<and>
         downloadHandler ''GET'' (Resource resp) s' = Inl SliceBounds"
proof -
  let ?fl = "\<lparr>arr = replicate (readAllSpare e) 0, len = 0\<rparr>"
  let ?s1 = "s\<lparr>fileChunksDB := (fileChunksDB s)(uuid e \<mapsto> [])\<rparr>"
  from uploadHandler_Created[OF assms(1)] obtain fname fcontent parts pcs where
    sp: "splitFile (length (servers s)) ?fl = Inr parts"
    and run: "run_tasks (uuid e) fname parts (schedule e)
                (?s1, replicate (length parts) Ready) = (s', pcs)"
    and fin: "list_all is_Finished pcs"
    and resp: "resp = \<lparr>Resource = uuid e, Checksum = hex (sha256 e fcontent)\<rparr>"
    by blast
  let ?n = "length (servers s)"
  have wf: "wf_slice ?fl" by (simp add: wf_slice_def)
  have pos: "0 < ?n" and parts: "parts = map (part_at ?fl ?n (len ?fl div ?n)) [0..<?n]"
    using splitFile_Inr[OF sp wf] by simp_all
  have n: "length parts = ?n" using parts by simp
  have empty: "bytes (parts ! i) = []" if "i < ?n" for i
    using that parts by (simp add: part_at_empty)
  have i1: "reg_inv (uuid e) fname (length parts) (?s1, replicate (length parts) Ready)"
    using n by (intro init_inv(1)) simp
  have i2: "srv_inv (uuid e) parts ?s1 (?s1, replicate (length parts) Ready)"
    using n by (intro init_inv(2)) simp
  have inv: "reg_inv (uuid e) fname (length parts) (s', pcs)"
            "srv_inv (uuid e) parts ?s1 (s', pcs)"
    using run_tasks_inv[OF i1 i2, of "schedule e"] unfolding run by simp_all
  from inv(1) obtain recs where
    l: "length pcs = ?n" "length (servers s') = ?n" and
    r: "fileChunksDB s' (uuid e) = Some recs"
       "set (map Order recs) = {i. i < ?n \<and> pcs ! i \<noteq> Ready}"
    using n by (auto simp: reg_inv_def)
  have fin_i: "\<exists>err. pcs ! i = Finished err" if "i < ?n" for i
    using fin that l(1) by (simp add: list_all_length is_Finished_iff)
  have st: "storage (servers s' ! i) (uuid e) = Some \<lparr>order = i, data = parts ! i\<rparr>"
    if "i < ?n" for i
    using inv(2) fin_i[OF that] that n by (auto simp: srv_inv_def)
  have nr: "pcs ! i \<noteq> Ready" if "i < ?n" for i
    using fin_i[OF that] by auto
  have ords: "set (map Order recs) = {0..<?n}"
    unfolding r(2) using nr by auto
  then have ne: "recs \<noteq> []" using pos by auto
  let ?chs = "map (\<lambda>r. \<lparr>order = Order r, data = parts ! Order r\<rparr>) recs"
  have m: "map (chunk_of (servers s') (uuid e)) recs = map Some ?chs"
  proof -
    have "chunk_of (servers s') (uuid e) r = Some \<lparr>order = Order r, data = parts ! Order r\<rparr>"
      if "r \<in> set recs" for r
    proof -
      have "Order r < ?n" using that ords by auto
      then show ?thesis using st l(2) by (simp add: chunk_of_def)
    qed
    then show ?thesis by simp
  qed
  have cont: "concat (map (\<lambda>ch. bytes (data ch)) ?chs) = []"
  proof -
    have "bytes (parts ! Order r) = []" if "r \<in> set recs" for r
    proof -
      have "Order r < ?n" using that ords by auto
      then show ?thesis by (rule empty)
    qed
    then show ?thesis by (simp add: comp_def)
  qed
  have dl: "downloadHandler ''GET'' (uuid e) s' = Inl SliceBounds"
    unfolding downloadHandler_fetched[OF r(1) ne assms(2) m] cont by simp
  have chunks: "\<forall>i<length (servers s'). \<exists>ch. storage (servers s' ! i) (uuid e) = Some ch \<and>
            bytes (data ch) = []"
    using st empty l(2) by simp
  show ?thesis using dl chunks resp by simp
qed

theorem upload_then_download_witness:
  "\<exists>resp s'. uploadHandler example_env ''POST'' (Some (''a.txt'', hello)) two_backends =
       Some (Inr (Created resp), s') \<and> uuid example_env \<noteq> [] \<and>
     downloadHandler ''GET'' (Resource resp) s' = Inl SliceBounds"
proof -
  have "case uploadHandler example_env ''POST'' (Some (''a.txt'', hello)) two_backends of
          Some (Inr (Created resp), s') \<Rightarrow> True | _ \<Rightarrow> False"
    by code_simp
  then obtain resp s' where
    h: "uploadHandler example_env ''POST'' (Some (''a.txt'', hello)) two_backends =
          Some (Inr (Created resp), s')"
    using is_Created by blast
  have u: "uuid example_env \<noteq> []" by (simp add: example_env_def)
  from upload_then_download[OF h u] h u show ?thesis by blast
qed

end
